theory Spec2Isabelle
  imports Main
begin

section \<open>Requester: request execution, aggregation and history\<close>

text \<open>
  A shallow embedding of \<^verbatim>\<open>RequestCommandMixin\<close> (core/__init__.py) and of
  \<^verbatim>\<open>RequesterCancelRequestsCommand\<close> and \<^verbatim>\<open>base_url\<close> (request_commands.py).
  Mutable objects become explicit state, exceptions become \<open>Inl\<close> values of a sum type,
  and every loop becomes a recursive function.
\<close>

datatype error = TypeError | ValueError | OSError

subsection \<open>Strings\<close>

text \<open>
  Python's \<^verbatim>\<open>str.splitlines\<close> on code points below 256: a line ends at LF, VT, FF, CR,
  FS, GS, RS or NEL, the pair CR LF counts once, and no empty line is produced after the
  last line break.
\<close>

definition is_linebreak :: "char \<Rightarrow> bool" where
  "is_linebreak c \<longleftrightarrow>
     c \<in> set [CHR 0x0A, CHR 0x0B, CHR 0x0C, CHR 0x0D, CHR 0x1C, CHR 0x1D, CHR 0x1E, CHR 0x85]"

fun splitlines_acc :: "string \<Rightarrow> string \<Rightarrow> string list" where
  "splitlines_acc cur [] = (if cur = [] then [] else [rev cur])"
| "splitlines_acc cur [c] = (if is_linebreak c then [rev cur] else [rev (c # cur)])"
| "splitlines_acc cur (c # d # cs) =
     (if c = CHR 0x0D \<and> d = CHR 0x0A then rev cur # splitlines_acc [] cs
      else if is_linebreak c then rev cur # splitlines_acc [] (d # cs)
      else splitlines_acc (c # cur) (d # cs))"

definition splitlines :: "string \<Rightarrow> string list" where
  "splitlines text = splitlines_acc [] text"

text \<open>\<^verbatim>\<open>sep.join(xs)\<close>.\<close>

fun str_join :: "string \<Rightarrow> string list \<Rightarrow> string" where
  "str_join sep [] = []"
| "str_join sep [x] = x"
| "str_join sep (x # y # ys) = x @ sep @ str_join sep (y # ys)"

subsection \<open>parse_env_block\<close>

definition delimeter :: string where
  "delimeter = ''###env''"

text \<open>
  The \<^verbatim>\<open>for line in text.splitlines()\<close> loop of \<^verbatim>\<open>parse_env_block\<close>, on the loop
  variables \<^verbatim>\<open>in_block\<close> and \<^verbatim>\<open>env_lines\<close>; the \<^verbatim>\<open>break\<close> returns at once.
\<close>

fun env_loop :: "bool \<Rightarrow> string list \<Rightarrow> string list \<Rightarrow> bool \<times> string list" where
  "env_loop in_block env_lines [] = (in_block, env_lines)"
| "env_loop in_block env_lines (line # rest) =
     (if in_block then
        (if line = delimeter then (False, env_lines)
         else env_loop in_block (env_lines @ [line]) rest)
      else
        (if line = delimeter then env_loop True env_lines rest
         else env_loop in_block env_lines rest))"

definition parse_env_block :: "string \<Rightarrow> string option" where
  "parse_env_block text =
     (case env_loop False [] (splitlines text) of
        (in_block, env_lines) \<Rightarrow>
          if length env_lines = 0 \<or> in_block then None
          else Some (str_join [CHR 0x0A] env_lines))"

subsection \<open>Responses, settings and history entries\<close>

text \<open>
  The fields of a \<^verbatim>\<open>requests\<close> response that the program reads: \<^verbatim>\<open>res.request.method\<close>,
  \<^verbatim>\<open>res.url\<close> and \<^verbatim>\<open>res.status_code\<close>.
\<close>

record http_result =
  req_method :: string
  res_url :: string
  status_code :: int

text \<open>
  The \<^verbatim>\<open>Response\<close> tuple that a worker appends to its pool, with the four keys that
  the docstring of \<^verbatim>\<open>gather_responses\<close> lists; \<^verbatim>\<open>response\<close> is None for a request that
  produced no result.
\<close>

record Response =
  request :: string
  response :: "http_result option"
  error :: "string option"
  ordering :: int

text \<open>The three \<^verbatim>\<open>requester.*\<close> settings of the view.\<close>

record view_settings =
  requester_env_string :: "string option"
  requester_file :: "string option"
  requester_env_file :: "string option"

text \<open>
  \<^verbatim>\<open>self.config\<close>: \<^verbatim>\<open>history_file\<close> may be absent, \<^verbatim>\<open>history_max_entries\<close> defaults
  to 100 when absent and is any integer otherwise.
\<close>

record config =
  history_file :: "string option"
  history_max_entries :: "int option"

text \<open>The dictionary stored under one history key.\<close>

record entry =
  h_ts :: int
  h_env_string :: "string option"
  h_file :: "string option"
  h_env_file :: "string option"
  h_method :: string
  h_url :: string
  h_code :: int
  h_request :: string

subsection \<open>OrderedDict\<close>

text \<open>
  An \<^verbatim>\<open>OrderedDict\<close> with string keys is the list of its items in insertion order;
  a dictionary has no two items with one key (\<open>od_wf\<close>).
\<close>

type_synonym history = "(string \<times> entry) list"

definition od_wf :: "history \<Rightarrow> bool" where
  "od_wf rh \<longleftrightarrow> distinct (map fst rh)"

definition od_keys :: "history \<Rightarrow> string list" where
  "od_keys rh = map fst rh"

definition od_contains :: "string \<Rightarrow> history \<Rightarrow> bool" where
  "od_contains k rh \<longleftrightarrow> k \<in> set (od_keys rh)"

text \<open>\<^verbatim>\<open>rh.pop(key, None)\<close>: the item of that key is unlinked, the others keep their order.\<close>

fun od_pop :: "string \<Rightarrow> history \<Rightarrow> history" where
  "od_pop k [] = []"
| "od_pop k ((k', v) # rh) = (if k' = k then rh else (k', v) # od_pop k rh)"

text \<open>\<^verbatim>\<open>rh[key] = v\<close>: a present key keeps its place, a new key goes to the end.\<close>

fun od_setitem :: "string \<Rightarrow> entry \<Rightarrow> history \<Rightarrow> history" where
  "od_setitem k v [] = [(k, v)]"
| "od_setitem k v ((k', v') # rh) =
     (if k' = k then (k, v) # rh else (k', v') # od_setitem k v rh)"

text \<open>\<^verbatim>\<open>del rh[key]\<close> raises KeyError for a missing key.\<close>

datatype key_error = KeyError

definition od_delitem :: "string \<Rightarrow> history \<Rightarrow> key_error + history" where
  "od_delitem k rh = (if od_contains k rh then Inr (od_pop k rh) else Inl KeyError)"

subsection \<open>persist_requests: inserting the batch\<close>

text \<open>\<^verbatim>\<open>'{}: {}'.format(method, url)\<close>\<close>

definition history_key :: "string \<Rightarrow> string \<Rightarrow> string" where
  "history_key m u = m @ '': '' @ u"

definition new_entry :: "view_settings \<Rightarrow> int \<Rightarrow> Response \<Rightarrow> http_result \<Rightarrow> entry" where
  "new_entry view ts r res =
     \<lparr>h_ts = ts,
      h_env_string = requester_env_string view,
      h_file = requester_file view,
      h_env_file = requester_env_file view,
      h_method = req_method res,
      h_url = res_url res,
      h_code = status_code res,
      h_request = request r\<rparr>"

text \<open>The body of the loop \<^verbatim>\<open>for response in responses\<close>, for one response.\<close>

definition insert_request :: "view_settings \<Rightarrow> int \<Rightarrow> Response \<Rightarrow> history \<Rightarrow> history" where
  "insert_request view ts r rh =
     (case response r of
        None \<Rightarrow> rh
      | Some res \<Rightarrow>
          (let key = history_key (req_method res) (res_url res);
               rh1 = (if od_contains key rh then od_pop key rh else rh)
           in od_setitem key (new_entry view ts r res) rh1))"

fun insert_requests :: "view_settings \<Rightarrow> int \<Rightarrow> Response list \<Rightarrow> history \<Rightarrow> history" where
  "insert_requests view ts [] rh = rh"
| "insert_requests view ts (r # rs) rh = insert_requests view ts rs (insert_request view ts r rh)"

subsection \<open>persist_requests: removing the oldest entries\<close>

text \<open>
  \<^verbatim>\<open>for i in range(to_delete)\<close> over the key iterator: a key is taken per round, and
  StopIteration leaves the loop.
\<close>

fun collect_keys :: "nat \<Rightarrow> string list \<Rightarrow> string list" where
  "collect_keys 0 it = []"
| "collect_keys (Suc n) [] = []"
| "collect_keys (Suc n) (k # it) = k # collect_keys n it"

text \<open>\<^verbatim>\<open>for key in keys: del rh[key]\<close>, a KeyError being passed over.\<close>

fun delete_keys :: "string list \<Rightarrow> history \<Rightarrow> history" where
  "delete_keys [] rh = rh"
| "delete_keys (k # ks) rh =
     delete_keys ks (case od_delitem k rh of Inl KeyError \<Rightarrow> rh | Inr rh' \<Rightarrow> rh')"

definition max_entries :: "config \<Rightarrow> int" where
  "max_entries cfg = (case history_max_entries cfg of None \<Rightarrow> 100 | Some n \<Rightarrow> n)"

definition remove_oldest :: "config \<Rightarrow> history \<Rightarrow> history" where
  "remove_oldest cfg rh =
     (let to_delete = int (length rh) - max_entries cfg
      in if to_delete > 0
         then delete_keys (collect_keys (nat to_delete) (od_keys rh)) rh
         else rh)"

subsection \<open>persist_requests: the history file\<close>

text \<open>
  What the history file holds, up to JSON formatting: nothing (the empty string), text
  that \<^verbatim>\<open>json.loads\<close> rejects, or a JSON object, given by the ordered dictionary that
  \<^verbatim>\<open>json.loads(text, object_pairs_hook=OrderedDict)\<close> builds from it. \<^verbatim>\<open>json.dumps\<close>
  writes the object of a dictionary. JSON text that is no object, which the program never
  writes, is left out.
\<close>

datatype contents = EmptyText | Malformed | Object history

text \<open>
  The file at \<^verbatim>\<open>history_path\<close>: absent, present but failing \<^verbatim>\<open>open(.., 'r')\<close> or
  \<^verbatim>\<open>f.read()\<close> with the given message, or holding contents. \<open>writable\<close> tells whether
  \<^verbatim>\<open>open(.., 'w')\<close> succeeds.
\<close>

datatype hfile = Absent | Unreadable string | Holding contents

record filesystem =
  hfile :: hfile
  writable :: bool

definition json_loads :: "contents \<Rightarrow> error + history" where
  "json_loads text =
     (case text of Object rh \<Rightarrow> Inr rh | EmptyText \<Rightarrow> Inl ValueError | Malformed \<Rightarrow> Inl ValueError)"

definition json_dumps :: "history \<Rightarrow> contents" where
  "json_dumps rh = Object rh"

text \<open>\<^verbatim>\<open>open(history_path, 'w')\<close> followed by writing \<open>c\<close> (nothing for \<^verbatim>\<open>close()\<close>).\<close>

definition write_file :: "contents \<Rightarrow> filesystem \<Rightarrow> error + filesystem" where
  "write_file c fs = (if writable fs then Inr (fs\<lparr>hfile := Holding c\<rparr>) else Inl OSError)"

text \<open>
  The \<^verbatim>\<open>try\<close> block that reads the file. \<open>ReadText\<close>: the text to parse and the file
  system after the block; \<open>ReadReported\<close>: the \<^verbatim>\<open>except Exception\<close> branch, which shows
  the message and returns; \<open>ReadRaised\<close>: creating the absent file failed inside the
  \<^verbatim>\<open>except FileNotFoundError\<close> branch.
\<close>

datatype read_result = ReadText contents filesystem | ReadReported string | ReadRaised error

definition read_history :: "filesystem \<Rightarrow> read_result" where
  "read_history fs =
     (case hfile fs of
        Holding c \<Rightarrow> ReadText (if c = EmptyText then Object [] else c) fs
      | Absent \<Rightarrow>
          (case write_file EmptyText fs of
             Inl e \<Rightarrow> ReadRaised e
           | Inr fs' \<Rightarrow> ReadText (Object []) fs')
      | Unreadable msg \<Rightarrow> ReadReported (''HistoryFile Error:'' @ [CHR 0x0A] @ msg))"

text \<open>
  \<^verbatim>\<open>persist_requests\<close>. \<open>Inr (fs', msgs)\<close>: the call returned, leaving the file system
  \<open>fs'\<close> after showing the error messages \<open>msgs\<close>; \<open>Inl e\<close>: the call raised \<open>e\<close> (every
  raising path leaves the file system as it was). \<open>ts\<close> is \<^verbatim>\<open>int(time())\<close>.
\<close>

definition persist_requests ::
  "config \<Rightarrow> view_settings \<Rightarrow> int \<Rightarrow> Response list \<Rightarrow> filesystem
     \<Rightarrow> error + filesystem \<times> string list" where
  "persist_requests cfg view ts responses fs =
     (if history_file cfg = None \<or> history_file cfg = Some [] then Inr (fs, [])
      else
        (case read_history fs of
           ReadRaised e \<Rightarrow> Inl e
         | ReadReported msg \<Rightarrow> Inr (fs, [msg])
         | ReadText text fs1 \<Rightarrow>
             (case json_loads text of
                Inl e \<Rightarrow> Inl e
              | Inr rh \<Rightarrow>
                  (let rh1 = insert_requests view ts responses rh;
                       rh2 = remove_oldest cfg rh1
                   in case write_file (json_dumps rh2) fs1 of
                        Inl e \<Rightarrow> Inl e
                      | Inr fs2 \<Rightarrow> Inr (fs2, [])))))"

subsection \<open>base_url\<close>

text \<open>\<^verbatim>\<open>url.split('?')[0]\<close>, then without one trailing slash.\<close>

definition base_url :: "string \<Rightarrow> string" where
  "base_url url =
     (let url = takeWhile (\<lambda>c. c \<noteq> CHR ''?'') url
      in if url \<noteq> [] \<and> last url = CHR ''/'' then butlast url else url)"

subsection \<open>Response pools and the pool registry\<close>

text \<open>
  The attributes of a \<^verbatim>\<open>ResponseThreadPool\<close> (a class of core/responses.py) that the
  mixin reads and writes. Pool objects are shared between the registry, the worker
  threads and the polling loop, so they live in a store and are referred to by address.
\<close>

record ResponseThreadPool =
  requests :: "string list"
  pending_requests :: "string list"
  responses :: "Response list"
  is_done :: bool

text \<open>
  \<open>pools\<close> is the content of the class attribute \<^verbatim>\<open>RESPONSE_POOLS\<close>, a \<^verbatim>\<open>Queue\<close>, its
  front first; \<open>next_ref\<close> is the address of the next object created.
\<close>

record registry =
  pools :: "nat list"
  heap :: "nat \<rightharpoonup> ResponseThreadPool"
  next_ref :: nat

definition MAX_NUM_RESPONSE_POOLS :: nat where
  "MAX_NUM_RESPONSE_POOLS = 10"

definition init_registry :: registry where
  "init_registry = \<lparr>pools = [], heap = Map.empty, next_ref = 0\<rparr>"

text \<open>\<^verbatim>\<open>old_pool.is_done = True\<close> on the object at address \<open>a\<close>.\<close>

definition set_done :: "nat \<Rightarrow> (nat \<rightharpoonup> ResponseThreadPool) \<Rightarrow> (nat \<rightharpoonup> ResponseThreadPool)" where
  "set_done a h = (case h a of None \<Rightarrow> h | Some p \<Rightarrow> h(a \<mapsto> p\<lparr>is_done := True\<rparr>))"

text \<open>
  \<^verbatim>\<open>while pools.qsize() > self.MAX_NUM_RESPONSE_POOLS\<close>: \<^verbatim>\<open>pools.get()\<close> takes the front
  of the queue. (The queue is not empty inside the loop, its size being above \<open>cap\<close>.)
\<close>

function evict_pools :: "nat \<Rightarrow> registry \<Rightarrow> registry" where
  "evict_pools cap w =
     (if length (pools w) > cap then
        (case pools w of
           [] \<Rightarrow> w
         | old_pool # rest \<Rightarrow>
             evict_pools cap (w\<lparr>pools := rest, heap := set_done old_pool (heap w)\<rparr>))
      else w)"
  by pat_completeness auto
termination
  by (relation "measure (\<lambda>(cap, w). length (pools w))") auto

declare evict_pools.simps [simp del]

text \<open>
  \<^verbatim>\<open>make_requests\<close>, as far as the registry goes: the new pool object \<open>p\<close> (built by the
  constructor of \<^verbatim>\<open>ResponseThreadPool\<close>) is stored at a fresh address and put at the
  back of the queue, then the loop above runs with capacity \<open>cap\<close>.
\<close>

definition make_requests :: "nat \<Rightarrow> ResponseThreadPool \<Rightarrow> registry \<Rightarrow> registry" where
  "make_requests cap p w =
     evict_pools cap
       (w\<lparr>pools := pools w @ [next_ref w],
          heap := (heap w)(next_ref w \<mapsto> p),
          next_ref := Suc (next_ref w)\<rparr>)"

fun make_requests_all :: "nat \<Rightarrow> ResponseThreadPool list \<Rightarrow> registry \<Rightarrow> registry" where
  "make_requests_all cap [] w = w"
| "make_requests_all cap (p # ps) w = make_requests_all cap ps (make_requests cap p w)"

text \<open>
  Every address in the queue refers to a stored pool, no address occurs twice, and
  addresses not yet handed out are unused.
\<close>

definition registry_wf :: "registry \<Rightarrow> bool" where
  "registry_wf w \<longleftrightarrow>
     distinct (pools w) \<and> set (pools w) \<subseteq> dom (heap w) \<and> (\<forall>a \<in> dom (heap w). a < next_ref w)"

subsection \<open>RequesterCancelRequestsCommand\<close>

text \<open>
  Python's iteration protocol for the two containers involved: a list yields its
  elements, a \<^verbatim>\<open>queue.Queue\<close> has neither \<^verbatim>\<open>__iter__\<close> nor \<^verbatim>\<open>__getitem__\<close>, so a
  \<^verbatim>\<open>for\<close> statement over it raises TypeError before its body runs.
\<close>

datatype 'a container = PyList "'a list" | PyQueue "'a list"

fun py_iter :: "'a container \<Rightarrow> error + 'a list" where
  "py_iter (PyList xs) = Inr xs"
| "py_iter (PyQueue xs) = Inl TypeError"

text \<open>\<^verbatim>\<open>RequesterCancelRequestsCommand.run\<close>: \<^verbatim>\<open>for pool in pools: pool.is_done = True\<close>.\<close>

definition cancel_run :: "registry \<Rightarrow> error + registry" where
  "cancel_run w =
     (case py_iter (PyQueue (pools w)) of
        Inl e \<Rightarrow> Inl e
      | Inr ps \<Rightarrow> Inr (w\<lparr>heap := fold set_done ps (heap w)\<rparr>))"

subsection \<open>gather_responses\<close>

text \<open>The calls that \<^verbatim>\<open>gather_responses\<close> makes, in the order it makes them.\<close>

datatype event =
    ShowActivity "string list" nat
  | HandleResponse Response nat
  | HandleResponses "Response list"
  | DefaultHandleErrors "Response list"
  | PersistRequests "Response list"
  | ClearActivity

text \<open>
  Where the polling loop of one pool stands: \<open>Scheduled count rs\<close>, a call
  \<^verbatim>\<open>gather_responses(pool, count, rs)\<close> is waiting in \<^verbatim>\<open>set_timeout\<close>; \<open>Draining d count rs\<close>,
  the call has cached \<^verbatim>\<open>is_done\<close> as \<open>d\<close> and is in its \<^verbatim>\<open>while\<close> loop; \<open>Finished\<close>, the
  call has returned without scheduling another one.
\<close>

datatype gather_state =
    Scheduled nat "Response list"
  | Draining bool nat "Response list"
  | Finished

record gather_sys =
  pool :: ResponseThreadPool
  gather :: gather_state
  trace :: "event list"

text \<open>
  What can happen next: the polling loop takes its next step (\<open>Poll\<close>), or another thread
  acts on the pool: a worker appends a response, the pending requests change, or
  \<^verbatim>\<open>is_done\<close> is set (the pool has run all its requests, or it was evicted or cancelled).
\<close>

datatype action = Poll | Append Response | SetPending "string list" | SetDone

definition poll :: "gather_sys \<Rightarrow> gather_sys" where
  "poll s =
     (case gather s of
        Scheduled count rs \<Rightarrow>
          s\<lparr>gather := Draining (is_done (pool s)) count rs,
            trace := trace s @ [ShowActivity (pending_requests (pool s)) count]\<rparr>
      | Draining d count rs \<Rightarrow>
          (case responses (pool s) of
             r # rest \<Rightarrow>
               s\<lparr>pool := (pool s)\<lparr>responses := rest\<rparr>,
                 gather := Draining d count (rs @ [r]),
                 trace := trace s @ [HandleResponse r (length (requests (pool s)))]\<rparr>
           | [] \<Rightarrow>
               if d then
                 (let sorted_rs = sort_key ordering rs
                  in s\<lparr>gather := Finished,
                       trace := trace s @ [HandleResponses sorted_rs, DefaultHandleErrors sorted_rs,
                                           PersistRequests sorted_rs, ClearActivity]\<rparr>)
               else s\<lparr>gather := Scheduled (count + 1) rs\<rparr>)
      | Finished \<Rightarrow> s)"

fun step :: "action \<Rightarrow> gather_sys \<Rightarrow> gather_sys" where
  "step Poll s = poll s"
| "step (Append r) s = s\<lparr>pool := (pool s)\<lparr>responses := responses (pool s) @ [r]\<rparr>\<rparr>"
| "step (SetPending rq) s = s\<lparr>pool := (pool s)\<lparr>pending_requests := rq\<rparr>\<rparr>"
| "step SetDone s = s\<lparr>pool := (pool s)\<lparr>is_done := True\<rparr>\<rparr>"

fun run :: "action list \<Rightarrow> gather_sys \<Rightarrow> gather_sys" where
  "run [] s = s"
| "run (a # as) s = run as (step a s)"

text \<open>\<^verbatim>\<open>sublime.set_timeout(lambda: self.gather_responses(pool), 0)\<close> in \<^verbatim>\<open>make_requests\<close>.\<close>

definition init_sys :: "ResponseThreadPool \<Rightarrow> gather_sys" where
  "init_sys p = \<lparr>pool = p, gather = Scheduled 0 [], trace = []\<rparr>"

subsection \<open>Reading the model\<close>

text \<open>The dictionary that the history file holds (empty when it holds no JSON object).\<close>

definition stored :: "filesystem \<Rightarrow> history" where
  "stored fs = (case hfile fs of Holding (Object rh) \<Rightarrow> rh | _ \<Rightarrow> [])"

text \<open>Some item of the dictionary has the key \<open>k\<close>, and its method and url fields spell \<open>k\<close>.\<close>

definition keyed :: "string \<Rightarrow> history \<Rightarrow> bool" where
  "keyed k rh \<longleftrightarrow> (\<exists>e. (k, e) \<in> set rh \<and> history_key (h_method e) (h_url e) = k)"

text \<open>
  The history key as the specification words it: the method joined to the url with a
  trailing slash removed and the querystring kept.
\<close>

definition spec_history_key :: "string \<Rightarrow> string \<Rightarrow> string" where
  "spec_history_key m u =
     m @ '': '' @ (if u \<noteq> [] \<and> last u = CHR ''/'' then butlast u else u)"

text \<open>The batches passed to \<^verbatim>\<open>handle_responses\<close> in a sequence of calls, in order.\<close>

fun batches :: "event list \<Rightarrow> Response list list" where
  "batches [] = []"
| "batches (HandleResponses rs # es) = rs # batches es"
| "batches (e # es) = batches es"

text \<open>The responses passed to \<^verbatim>\<open>handle_response\<close> in a sequence of calls, in order.\<close>

fun handled :: "event list \<Rightarrow> Response list" where
  "handled [] = []"
| "handled (HandleResponse r n # es) = r # handled es"
| "handled (e # es) = handled es"

text \<open>
  What holds between the calls made so far and the state of the polling loop: before it
  finishes, no batch was handed over and the accumulated list is the list of responses
  handled one by one; once finished, one batch was handed over, the sorted list of them.
\<close>

definition gather_inv :: "gather_sys \<Rightarrow> bool" where
  "gather_inv s \<longleftrightarrow>
     (case gather s of
        Scheduled count rs \<Rightarrow> batches (trace s) = [] \<and> rs = handled (trace s)
      | Draining d count rs \<Rightarrow> batches (trace s) = [] \<and> rs = handled (trace s)
      | Finished \<Rightarrow> batches (trace s) = [sort_key ordering (handled (trace s))])"

text \<open>The polling loop has cached \<^verbatim>\<open>is_done\<close> as true.\<close>

definition done_seen :: "gather_sys \<Rightarrow> bool" where
  "done_seen s \<longleftrightarrow> (case gather s of Scheduled count rs \<Rightarrow> False | Draining d count rs \<Rightarrow> d | Finished \<Rightarrow> True)"

subsection \<open>Example data\<close>

definition ex_view :: view_settings where
  "ex_view = \<lparr>requester_env_string = None, requester_file = Some ''/home/me/api.py'',
              requester_env_file = None\<rparr>"

definition ex_res :: "string \<Rightarrow> http_result" where
  "ex_res u = \<lparr>req_method = ''GET'', res_url = u, status_code = 200\<rparr>"

definition ex_get :: "string \<Rightarrow> int \<Rightarrow> Response" where
  "ex_get u i =
     \<lparr>request = ''requests.get('' @ u @ '')'', response = Some (ex_res u),
      error = None, ordering = i\<rparr>"

definition ex_entry :: "string \<Rightarrow> string \<times> entry" where
  "ex_entry u = (''GET: '' @ u, new_entry ex_view 0 (ex_get u 0) (ex_res u))"

definition ex_cfg :: "int \<Rightarrow> config" where
  "ex_cfg n = \<lparr>history_file = Some ''history.json'', history_max_entries = Some n\<rparr>"

definition ex_fs :: "history \<Rightarrow> filesystem" where
  "ex_fs rh = \<lparr>hfile = Holding (Object rh), writable = True\<rparr>"

definition ex_pool :: "string list \<Rightarrow> ResponseThreadPool" where
  "ex_pool rq = \<lparr>requests = rq, pending_requests = rq, responses = [], is_done = False\<rparr>"

section \<open>Properties\<close>

subsection \<open>parse_env_block\<close>

lemma env_loop_inside_closed:
  "delimeter \<notin> set body \<Longrightarrow>
   env_loop True acc (body @ delimeter # rest) = (False, acc @ body)"
  by (induction body arbitrary: acc) auto

lemma env_loop_inside_open:
  "delimeter \<notin> set body \<Longrightarrow> env_loop True acc body = (True, acc @ body)"
  by (induction body arbitrary: acc) auto

lemma env_loop_outside:
  "delimeter \<notin> set pre \<Longrightarrow> env_loop False acc (pre @ ls) = env_loop False acc ls"
  by (induction pre) auto

lemma env_loop_no_marker:
  "delimeter \<notin> set ls \<Longrightarrow> env_loop False acc ls = (False, acc)"
  by (induction ls) auto

text \<open>
  Claim C10. When the lines of the text are \<open>pre\<close>, a marker line, \<open>body\<close>, a second marker
  line and anything after it, with no marker line in \<open>pre\<close> or \<open>body\<close>, parse_env_block
  returns the lines of \<open>body\<close> joined by newlines, and None when \<open>body\<close> has no lines. When
  the first marker line is followed by no second marker line, it returns None.
\<close>

theorem parse_env_block_first_pair:
  "(delimeter \<notin> set pre \<and> delimeter \<notin> set body \<and>
      splitlines text = pre @ delimeter # body @ delimeter # rest \<longrightarrow>
      parse_env_block text =
        (if body = [] then None else Some (str_join [CHR 0x0A] body)))
   \<and> (delimeter \<notin> set pre \<and> delimeter \<notin> set body \<and>
      splitlines text = pre @ delimeter # body \<longrightarrow>
      parse_env_block text = None)"
  by (simp add: parse_env_block_def env_loop_outside env_loop_inside_closed
      env_loop_inside_open)

theorem parse_env_block_first_pair_witness:
  "parse_env_block (''a = 0'' @ [CHR 0x0A] @ ''###env'' @ [CHR 0x0A] @ ''x = 1'' @ [CHR 0x0D, CHR 0x0A]
       @ ''y = 2'' @ [CHR 0x0A] @ ''###env'' @ [CHR 0x0A] @ ''get(x)'' @ [CHR 0x0A] @ ''###env'')
     = Some (''x = 1'' @ [CHR 0x0A] @ ''y = 2'')
   \<and> parse_env_block (''###env'' @ [CHR 0x0A] @ ''x = 1'') = None"
  using parse_env_block_first_pair [of "[''a = 0'']" "[''x = 1'', ''y = 2'']"
      "''a = 0'' @ [CHR 0x0A] @ ''###env'' @ [CHR 0x0A] @ ''x = 1'' @ [CHR 0x0D, CHR 0x0A]
       @ ''y = 2'' @ [CHR 0x0A] @ ''###env'' @ [CHR 0x0A] @ ''get(x)'' @ [CHR 0x0A] @ ''###env''"
      "[''get(x)'', ''###env'']"]
    parse_env_block_first_pair [of "[]" "[''x = 1'']" "''###env'' @ [CHR 0x0A] @ ''x = 1''" "[]"]
  by (simp add: splitlines_def is_linebreak_def delimeter_def)

subsection \<open>Ordered dictionaries and the insertion loop\<close>

lemma od_pop_filter: "distinct (map fst rh) \<Longrightarrow> od_pop k rh = filter (\<lambda>p. fst p \<noteq> k) rh"
proof (induction rh)
  case Nil then show ?case by simp
next
  case (Cons p rh)
  obtain k' v where p: "p = (k', v)" by (cases p)
  show ?case
  proof (cases "k' = k")
    case True
    with Cons.prems p have "k \<notin> fst ` set rh" by simp
    then have "filter (\<lambda>p. fst p \<noteq> k) rh = rh"
      by (intro filter_True) force
    with True p show ?thesis by simp
  next
    case False
    with Cons p show ?thesis by simp
  qed
qed

lemma od_setitem_fresh: "k \<notin> fst ` set rh \<Longrightarrow> od_setitem k v rh = rh @ [(k, v)]"
  by (induction rh) auto

lemma od_setitem_mem: "(k, v) \<in> set (od_setitem k v rh)"
  by (induction rh) auto

lemma od_setitem_other: "k' \<noteq> k \<Longrightarrow> (k', e) \<in> set rh \<Longrightarrow> (k', e) \<in> set (od_setitem k v rh)"
  by (induction rh) auto

lemma od_pop_other: "k' \<noteq> k \<Longrightarrow> (k', e) \<in> set rh \<Longrightarrow> (k', e) \<in> set (od_pop k rh)"
  by (induction rh) auto

lemma insert_request_Some:
  assumes "od_wf rh" "response r = Some res"
  shows "insert_request view ts r rh =
    filter (\<lambda>p. fst p \<noteq> history_key (req_method res) (res_url res)) rh
      @ [(history_key (req_method res) (res_url res), new_entry view ts r res)]"
proof -
  let ?k = "history_key (req_method res) (res_url res)"
  let ?rh1 = "if od_contains ?k rh then od_pop ?k rh else rh"
  have "?rh1 = filter (\<lambda>p. fst p \<noteq> ?k) rh"
  proof (cases "od_contains ?k rh")
    case True
    with assms(1) show ?thesis by (simp add: od_pop_filter od_wf_def)
  next
    case False
    then have "filter (\<lambda>p. fst p \<noteq> ?k) rh = rh"
      by (intro filter_True) (force simp: od_contains_def od_keys_def)
    with False show ?thesis by simp
  qed
  moreover have "?k \<notin> fst ` set (filter (\<lambda>p. fst p \<noteq> ?k) rh)" by auto
  ultimately show ?thesis
    using assms(2) by (simp add: insert_request_def Let_def od_setitem_fresh del: set_filter)
qed

lemma insert_request_wf: "od_wf rh \<Longrightarrow> od_wf (insert_request view ts r rh)"
proof (cases "response r")
  case None then show "od_wf rh \<Longrightarrow> ?thesis" by (simp add: insert_request_def)
next
  case (Some res)
  assume wf: "od_wf rh"
  show ?thesis
    unfolding insert_request_Some [OF wf Some]
    using wf by (auto simp: od_wf_def distinct_map_filter)
qed

lemma insert_requests_wf: "od_wf rh \<Longrightarrow> od_wf (insert_requests view ts rs rh)"
  by (induction rs arbitrary: rh) (auto simp: insert_request_wf)

lemma insert_request_keyed_new:
  "response r = Some res \<Longrightarrow>
   keyed (history_key (req_method res) (res_url res)) (insert_request view ts r rh)"
  unfolding keyed_def
  by (rule exI [of _ "new_entry view ts r res"])
     (simp add: insert_request_def Let_def od_setitem_mem new_entry_def)

lemma insert_request_keyed_keep:
  assumes "keyed k rh"
  shows "keyed k (insert_request view ts r rh)"
proof (cases "response r")
  case None
  with assms show ?thesis by (simp add: insert_request_def)
next
  case (Some res)
  show ?thesis
  proof (cases "history_key (req_method res) (res_url res) = k")
    case True
    with insert_request_keyed_new [OF Some, of view ts rh] show ?thesis by simp
  next
    case False
    from assms obtain e where e: "(k, e) \<in> set rh" "history_key (h_method e) (h_url e) = k"
      by (auto simp: keyed_def)
    from e(1) False have "(k, e) \<in> set (insert_request view ts r rh)"
      by (simp add: insert_request_def Some Let_def od_setitem_other od_pop_other)
    with e(2) show ?thesis by (auto simp: keyed_def)
  qed
qed

lemma insert_requests_keyed_keep:
  "keyed k rh \<Longrightarrow> keyed k (insert_requests view ts rs rh)"
  by (induction rs arbitrary: rh) (auto simp: insert_request_keyed_keep)

subsection \<open>Removing the oldest entries\<close>

lemma collect_keys_take: "collect_keys n ks = take n ks"
  by (induction n ks rule: collect_keys.induct) auto

lemma delete_keys_drop: "delete_keys (take n (od_keys rh)) rh = drop n rh"
proof (induction rh arbitrary: n)
  case Nil then show ?case by (simp add: od_keys_def)
next
  case (Cons p rh)
  show ?case
  proof (cases n)
    case 0 then show ?thesis by simp
  next
    case (Suc m)
    obtain k v where p: "p = (k, v)" by (cases p)
    have "od_delitem k ((k, v) # rh) = Inr rh"
      by (simp add: od_delitem_def od_contains_def od_keys_def)
    with Cons.IH [of m] show ?thesis
      using Suc p by (simp add: od_keys_def)
  qed
qed

lemma remove_oldest_eq:
  "remove_oldest cfg rh = drop (nat (int (length rh) - max_entries cfg)) rh"
  by (simp add: remove_oldest_def Let_def collect_keys_take delete_keys_drop)

lemma persist_requests_written:
  assumes "history_file cfg = Some name" "name \<noteq> []"
    and "persist_requests cfg view ts batch fs = Inr (fs', [])"
  shows "fs' = fs\<lparr>hfile := Holding (Object (remove_oldest cfg (insert_requests view ts batch (stored fs))))\<rparr>"
  using assms
  by (auto simp: persist_requests_def read_history_def json_loads_def json_dumps_def
      write_file_def stored_def Let_def
      split: hfile.splits contents.splits if_splits sum.splits)

lemmas persist_defs = persist_requests_def read_history_def json_loads_def json_dumps_def
  write_file_def Let_def remove_oldest_eq max_entries_def insert_request_def history_key_def
  od_contains_def od_keys_def new_entry_def

lemmas ex_defs = ex_cfg_def ex_fs_def ex_entry_def ex_get_def ex_res_def ex_view_def

subsection \<open>The history key\<close>

text \<open>
  Claim C5, as stated, fails: a response whose url ends in a slash is stored under the key
  that keeps the slash, which is neither the key of the specification's words nor the
  method joined to \<open>base_url\<close> of the url.
\<close>

theorem insert_requests_key_counterexample:
  "od_keys (insert_requests ex_view 0 [ex_get ''http://example.com/api/'' 0] [])
     = [''GET: http://example.com/api/'']
   \<and> ''GET: http://example.com/api/'' \<noteq> spec_history_key ''GET'' ''http://example.com/api/''
   \<and> ''GET: http://example.com/api/'' \<noteq> history_key ''GET'' (base_url ''http://example.com/api/'')"
  by (simp add: persist_defs ex_defs spec_history_key_def base_url_def)

text \<open>
  Claim C5, amended. After the insertion loop, every response of the batch that has a
  result is stored under the key made of its method, a colon and a space, and its url as
  the result reports it (querystring and trailing slash kept), in an entry whose method
  and url fields spell that key.
\<close>

theorem insert_requests_key:
  "\<forall>r \<in> set batch. \<forall>res. response r = Some res \<longrightarrow>
     (\<exists>e. (history_key (req_method res) (res_url res), e)
            \<in> set (insert_requests view ts batch rh)
          \<and> history_key (h_method e) (h_url e) = req_method res @ '': '' @ res_url res)"
proof (induction batch arbitrary: rh)
  case Nil
  show ?case by simp
next
  case (Cons a rs)
  show ?case
  proof (intro ballI allI impI)
    fix r res
    assume r: "r \<in> set (a # rs)" and res: "response r = Some res"
    let ?k = "history_key (req_method res) (res_url res)"
    have "keyed ?k (insert_requests view ts (a # rs) rh)"
    proof (cases "r = a")
      case True
      with res have "keyed ?k (insert_request view ts a rh)"
        by (simp add: insert_request_keyed_new)
      then show ?thesis by (simp add: insert_requests_keyed_keep)
    next
      case False
      with r have "r \<in> set rs" by simp
      with Cons.IH [of "insert_request view ts a rh"] res
      show ?thesis by (auto simp: keyed_def history_key_def)
    qed
    then show "\<exists>e. (?k, e) \<in> set (insert_requests view ts (a # rs) rh)
          \<and> history_key (h_method e) (h_url e) = req_method res @ '': '' @ res_url res"
      by (auto simp: keyed_def history_key_def)
  qed
qed

theorem insert_requests_key_witness:
  "\<exists>e. (''GET: http://example.com/api/?page=2'', e)
        \<in> set (insert_requests ex_view 0 [ex_get ''http://example.com/api/?page=2'' 0] [ex_entry ''http://a''])
      \<and> history_key (h_method e) (h_url e) = ''GET: http://example.com/api/?page=2''"
  using insert_requests_key [of "[ex_get ''http://example.com/api/?page=2'' 0]" ex_view 0 "[ex_entry ''http://a'']"]
  by (simp add: ex_get_def ex_res_def history_key_def)

subsection \<open>Re-inserting an existing key\<close>

text \<open>
  The insertion loop alone, on a response whose key is already in the dictionary: one item
  is left under that key, as the last item, and the items of the other keys keep their
  values and their order.
\<close>

lemma insert_request_existing_key:
  "od_wf rh \<and> response r = Some res \<and>
   od_contains (history_key (req_method res) (res_url res)) rh \<longrightarrow>
     (let key = history_key (req_method res) (res_url res);
          rh' = insert_requests view ts [r] rh
      in length (filter (\<lambda>p. fst p = key) rh') = 1
         \<and> last rh' = (key, new_entry view ts r res)
         \<and> filter (\<lambda>p. fst p \<noteq> key) rh' = filter (\<lambda>p. fst p \<noteq> key) rh
         \<and> od_wf rh')"
proof (intro impI, elim conjE)
  assume wf: "od_wf rh" and res: "response r = Some res"
  let ?key = "history_key (req_method res) (res_url res)"
  have eq: "insert_requests view ts [r] rh =
      filter (\<lambda>p. fst p \<noteq> ?key) rh @ [(?key, new_entry view ts r res)]"
    using insert_request_Some [OF wf res] by simp
  have "filter (\<lambda>p. fst p = ?key) (filter (\<lambda>p. fst p \<noteq> ?key) rh) = []"
    by (simp add: filter_empty_conv)
  moreover have "od_wf (insert_requests view ts [r] rh)"
    using wf by (rule insert_requests_wf)
  ultimately show "let key = ?key; rh' = insert_requests view ts [r] rh
      in length (filter (\<lambda>p. fst p = key) rh') = 1
         \<and> last rh' = (key, new_entry view ts r res)
         \<and> filter (\<lambda>p. fst p \<noteq> key) rh' = filter (\<lambda>p. fst p \<noteq> key) rh
         \<and> od_wf rh'"
    unfolding Let_def eq by simp
qed

lemma filter_other_length:
  "distinct (map fst rh) \<Longrightarrow> k \<in> fst ` set rh \<Longrightarrow>
   Suc (length (filter (\<lambda>p. fst p \<noteq> k) rh)) = length rh"
proof (induction rh)
  case Nil
  then show ?case by simp
next
  case (Cons p rh)
  show ?case
  proof (cases "fst p = k")
    case True
    with Cons.prems(1) have "k \<notin> fst ` set rh" by simp
    then have "filter (\<lambda>p. fst p \<noteq> k) rh = rh"
      by (intro filter_True) force
    with True show ?thesis by simp
  next
    case False
    with Cons show ?thesis by auto
  qed
qed

text \<open>
  Claim C6, as stated, fails: with \<^verbatim>\<open>history_max_entries\<close> 0, persisting a response
  whose key is in the store leaves no entry under that key, the entry just inserted being
  removed with the others.
\<close>

theorem persist_existing_key_counterexample:
  "persist_requests (ex_cfg 0) ex_view 5 [ex_get ''http://a'' 0]
       (ex_fs [ex_entry ''http://a'', ex_entry ''http://b'']) = Inr (ex_fs [], [])
   \<and> od_contains ''GET: http://a'' [ex_entry ''http://a'', ex_entry ''http://b'']
   \<and> filter (\<lambda>p. fst p = ''GET: http://a'') (stored (ex_fs [])) = []"
  by (simp add: persist_defs ex_defs stored_def)

text \<open>
  Claim C6, amended. With \<^verbatim>\<open>history_max_entries\<close> at least 1, persisting a response
  whose history key is already in the store rewrites the file with exactly one entry under
  that key. The entry holds the new value: the timestamp of the call, the three settings
  of the view, and the method, url, status code and request text of the response. It is
  the last entry of the insertion order; the entries of the other keys keep their values
  and their order, but for those removed from the front as overflow.
\<close>

theorem persist_existing_key:
  "history_file cfg = Some name \<and> name \<noteq> [] \<and> hfile fs = Holding (Object rh) \<and> writable fs
   \<and> od_wf rh \<and> response r = Some res
   \<and> od_contains (req_method res @ '': '' @ res_url res) rh \<and> 1 \<le> max_entries cfg \<longrightarrow>
     (let key = req_method res @ '': '' @ res_url res;
          e = \<lparr>h_ts = ts,
               h_env_string = requester_env_string view,
               h_file = requester_file view,
               h_env_file = requester_env_file view,
               h_method = req_method res,
               h_url = res_url res,
               h_code = status_code res,
               h_request = request r\<rparr>
      in \<exists>rh'. persist_requests cfg view ts [r] fs
                  = Inr (fs\<lparr>hfile := Holding (Object rh')\<rparr>, [])
           \<and> filter (\<lambda>p. fst p = key) rh' = [(key, e)]
           \<and> last rh' = (key, e)
           \<and> filter (\<lambda>p. fst p \<noteq> key) rh'
               = drop (nat (int (length rh) - max_entries cfg)) (filter (\<lambda>p. fst p \<noteq> key) rh))"
proof (intro impI, elim conjE)
  assume a: "history_file cfg = Some name" "name \<noteq> []" "hfile fs = Holding (Object rh)"
    "writable fs" and wf: "od_wf rh" and res: "response r = Some res"
    and mem: "od_contains (req_method res @ '': '' @ res_url res) rh"
    and bound: "1 \<le> max_entries cfg"
  let ?key = "req_method res @ '': '' @ res_url res"
  let ?e = "\<lparr>h_ts = ts, h_env_string = requester_env_string view,
      h_file = requester_file view, h_env_file = requester_env_file view,
      h_method = req_method res, h_url = res_url res, h_code = status_code res,
      h_request = request r\<rparr>"
  let ?ys = "filter (\<lambda>p. fst p \<noteq> ?key) rh"
  let ?n = "nat (int (length rh) - max_entries cfg)"
  let ?rh' = "drop ?n ?ys @ [(?key, ?e)]"
  have ins: "insert_requests view ts [r] rh = ?ys @ [(?key, ?e)]"
    using insert_request_Some [OF wf res] by (simp add: history_key_def new_entry_def)
  have len: "Suc (length ?ys) = length rh"
    using wf mem by (intro filter_other_length) (simp_all add: od_wf_def od_contains_def od_keys_def)
  with bound have n: "?n \<le> length ?ys" by linarith
  from len have "length (?ys @ [(?key, ?e)]) = length rh" by simp
  then have "remove_oldest cfg (?ys @ [(?key, ?e)]) = drop ?n (?ys @ [(?key, ?e)])"
    by (simp only: remove_oldest_eq)
  with n have ro: "remove_oldest cfg (?ys @ [(?key, ?e)]) = ?rh'" by simp
  have p: "persist_requests cfg view ts [r] fs = Inr (fs\<lparr>hfile := Holding (Object ?rh')\<rparr>, [])"
    using a ins ro
    by (simp add: persist_requests_def read_history_def json_loads_def json_dumps_def
        write_file_def Let_def)
  have none: "filter (\<lambda>p. fst p = ?key) (drop ?n ?ys) = []"
    by (auto simp: filter_empty_conv dest: in_set_dropD)
  have all: "filter (\<lambda>p. fst p \<noteq> ?key) (drop ?n ?ys) = drop ?n ?ys"
    by (intro filter_True) (auto dest: in_set_dropD)
  have "filter (\<lambda>p. fst p = ?key) ?rh' = [(?key, ?e)]"
    using none by simp
  moreover have "last ?rh' = (?key, ?e)" by simp
  moreover have "filter (\<lambda>p. fst p \<noteq> ?key) ?rh' = drop ?n ?ys"
    using all by simp
  ultimately have "\<exists>rh'. persist_requests cfg view ts [r] fs
                  = Inr (fs\<lparr>hfile := Holding (Object rh')\<rparr>, [])
           \<and> filter (\<lambda>p. fst p = ?key) rh' = [(?key, ?e)]
           \<and> last rh' = (?key, ?e)
           \<and> filter (\<lambda>p. fst p \<noteq> ?key) rh' = drop ?n ?ys"
    using p by blast
  then show "let key = ?key; e = ?e
      in \<exists>rh'. persist_requests cfg view ts [r] fs
                  = Inr (fs\<lparr>hfile := Holding (Object rh')\<rparr>, [])
           \<and> filter (\<lambda>p. fst p = key) rh' = [(key, e)]
           \<and> last rh' = (key, e)
           \<and> filter (\<lambda>p. fst p \<noteq> key) rh'
               = drop (nat (int (length rh) - max_entries cfg)) (filter (\<lambda>p. fst p \<noteq> key) rh)"
    unfolding Let_def .
qed

theorem persist_existing_key_witness:
  "persist_requests (ex_cfg 2) ex_view 5
       [\<lparr>request = ''requests.get(http://a, timeout=9)'',
         response = Some \<lparr>req_method = ''GET'', res_url = ''http://a'', status_code = 404\<rparr>,
         error = None, ordering = 0\<rparr>]
       (ex_fs [ex_entry ''http://a'', ex_entry ''http://b''])
     = Inr (ex_fs [ex_entry ''http://b'',
                   (''GET: http://a'',
                    \<lparr>h_ts = 5, h_env_string = None, h_file = Some ''/home/me/api.py'',
                     h_env_file = None, h_method = ''GET'', h_url = ''http://a'', h_code = 404,
                     h_request = ''requests.get(http://a, timeout=9)''\<rparr>)], [])
   \<and> od_contains ''GET: http://a'' [ex_entry ''http://a'', ex_entry ''http://b'']
   \<and> od_wf [ex_entry ''http://a'', ex_entry ''http://b'']"
  using persist_existing_key [where cfg = "ex_cfg 2" and name = "''history.json''"
      and fs = "ex_fs [ex_entry ''http://a'', ex_entry ''http://b'']"
      and rh = "[ex_entry ''http://a'', ex_entry ''http://b'']"
      and r = "\<lparr>request = ''requests.get(http://a, timeout=9)'',
         response = Some \<lparr>req_method = ''GET'', res_url = ''http://a'', status_code = 404\<rparr>,
         error = None, ordering = 0\<rparr>"
      and res = "\<lparr>req_method = ''GET'', res_url = ''http://a'', status_code = 404\<rparr>"
      and view = ex_view and ts = 5]
  by (simp add: persist_defs ex_defs od_wf_def)

subsection \<open>The bound on the history\<close>

text \<open>
  Claim C7, as stated, fails for a negative \<^verbatim>\<open>history_max_entries\<close>: with the bound -1
  and one stored entry the overflow is 2, one entry is removed (the key iterator is
  exhausted), and the final size 0 is above the bound.
\<close>

theorem persist_requests_bound_counterexample:
  "persist_requests (ex_cfg (- 1)) ex_view 7 [] (ex_fs [ex_entry ''http://a'']) = Inr (ex_fs [], [])
   \<and> \<not> int (length (stored (ex_fs []))) \<le> max_entries (ex_cfg (- 1))
   \<and> int (length [ex_entry ''http://a'']) - max_entries (ex_cfg (- 1)) = 2
   \<and> length [ex_entry ''http://a''] - length (stored (ex_fs [])) = 1"
  by (simp add: persist_requests_def read_history_def json_loads_def json_dumps_def
      write_file_def Let_def ex_cfg_def ex_fs_def ex_entry_def ex_res_def stored_def
      remove_oldest_eq max_entries_def)

text \<open>
  Claim C7, amended. With a bound that is not negative, whenever persist_requests has
  written the history file, the dictionary in it holds at most \<^verbatim>\<open>history_max_entries\<close>
  items; when the dictionary after the insertion loop was larger than the bound, exactly
  the overflow count of items was removed from the front of its insertion order and the
  final size equals the bound; otherwise nothing was removed.
\<close>

theorem persist_requests_bound:
  "history_file cfg = Some name \<and> name \<noteq> [] \<and> 0 \<le> max_entries cfg \<and>
   persist_requests cfg view ts batch fs = Inr (fs', []) \<longrightarrow>
     (let post = insert_requests view ts batch (stored fs);
          overflow = int (length post) - max_entries cfg
      in hfile fs' = Holding (Object (stored fs'))
         \<and> int (length (stored fs')) \<le> max_entries cfg
         \<and> (overflow > 0 \<longrightarrow>
              stored fs' = drop (nat overflow) post
              \<and> int (length (stored fs')) = max_entries cfg)
         \<and> (overflow \<le> 0 \<longrightarrow> stored fs' = post))"
proof (intro impI, elim conjE)
  assume a: "history_file cfg = Some name" "name \<noteq> []" "0 \<le> max_entries cfg"
    "persist_requests cfg view ts batch fs = Inr (fs', [])"
  let ?post = "insert_requests view ts batch (stored fs)"
  have "fs' = fs\<lparr>hfile := Holding (Object (remove_oldest cfg ?post))\<rparr>"
    using a(1,2,4) by (rule persist_requests_written)
  then have st: "stored fs' = drop (nat (int (length ?post) - max_entries cfg)) ?post"
    and hf: "hfile fs' = Holding (Object (stored fs'))"
    by (simp_all add: stored_def remove_oldest_eq)
  from a(3) have "int (length (stored fs')) \<le> max_entries cfg"
    unfolding st by simp
  moreover from a(3) have "int (length ?post) - max_entries cfg > 0 \<longrightarrow>
      int (length (stored fs')) = max_entries cfg"
    unfolding st by simp
  moreover have "int (length ?post) - max_entries cfg \<le> 0 \<longrightarrow> stored fs' = ?post"
    unfolding st by simp
  ultimately show "let post = ?post; overflow = int (length post) - max_entries cfg
      in hfile fs' = Holding (Object (stored fs'))
         \<and> int (length (stored fs')) \<le> max_entries cfg
         \<and> (overflow > 0 \<longrightarrow>
              stored fs' = drop (nat overflow) post
              \<and> int (length (stored fs')) = max_entries cfg)
         \<and> (overflow \<le> 0 \<longrightarrow> stored fs' = post)"
    using st hf unfolding Let_def by blast
qed

theorem persist_requests_bound_witness:
  "stored (ex_fs [ex_entry ''http://b'', ex_entry ''http://c''])
     = drop 1 (insert_requests ex_view 0 [ex_get ''http://c'' 0]
         (stored (ex_fs [ex_entry ''http://a'', ex_entry ''http://b''])))
   \<and> int (length (stored (ex_fs [ex_entry ''http://b'', ex_entry ''http://c'']))) = 2"
  using persist_requests_bound [of "ex_cfg 2" "''history.json''" ex_view 0
      "[ex_get ''http://c'' 0]" "ex_fs [ex_entry ''http://a'', ex_entry ''http://b'']"
      "ex_fs [ex_entry ''http://b'', ex_entry ''http://c'']"]
  by (simp add: persist_defs ex_defs stored_def)

subsection \<open>Persisting an empty batch\<close>

text \<open>
  Claim C9, as stated, fails: with an empty batch, a file of three entries under the bound
  2 loses its oldest entry, an absent file is created, and an empty file is rewritten as
  the empty object.
\<close>

theorem persist_empty_batch_counterexample:
  "persist_requests (ex_cfg 2) ex_view 0 []
       (ex_fs [ex_entry ''http://a'', ex_entry ''http://b'', ex_entry ''http://c''])
     = Inr (ex_fs [ex_entry ''http://b'', ex_entry ''http://c''], [])
   \<and> ex_fs [ex_entry ''http://b'', ex_entry ''http://c'']
       \<noteq> ex_fs [ex_entry ''http://a'', ex_entry ''http://b'', ex_entry ''http://c'']
   \<and> persist_requests (ex_cfg 2) ex_view 0 [] \<lparr>hfile = Absent, writable = True\<rparr>
     = Inr (\<lparr>hfile = Holding (Object []), writable = True\<rparr>, [])
   \<and> persist_requests (ex_cfg 2) ex_view 0 [] \<lparr>hfile = Holding EmptyText, writable = True\<rparr>
     = Inr (\<lparr>hfile = Holding (Object []), writable = True\<rparr>, [])"
  by (simp add: persist_defs ex_defs)

text \<open>
  Claim C9, amended. When history is enabled and the file is writable and holds a JSON
  object, persisting an empty batch leaves the file system as it was if the object has at
  most \<^verbatim>\<open>history_max_entries\<close> items; if it has more, the file is rewritten without its
  oldest items.
\<close>

theorem persist_empty_batch:
  "history_file cfg = Some name \<and> name \<noteq> [] \<and> hfile fs = Holding (Object rh) \<and> writable fs \<longrightarrow>
     (int (length rh) \<le> max_entries cfg \<longrightarrow>
        persist_requests cfg view ts [] fs = Inr (fs, []))
     \<and> (int (length rh) > max_entries cfg \<longrightarrow>
        persist_requests cfg view ts [] fs
          = Inr (fs\<lparr>hfile := Holding (Object (drop (nat (int (length rh) - max_entries cfg)) rh))\<rparr>, []))"
  by (simp add: persist_requests_def read_history_def json_loads_def json_dumps_def
      write_file_def Let_def remove_oldest_eq)

theorem persist_empty_batch_witness:
  "persist_requests (ex_cfg 2) ex_view 0 [] (ex_fs [ex_entry ''http://a'', ex_entry ''http://b''])
     = Inr (ex_fs [ex_entry ''http://a'', ex_entry ''http://b''], [])
   \<and> persist_requests (ex_cfg 1) ex_view 0 [] (ex_fs [ex_entry ''http://a'', ex_entry ''http://b''])
     = Inr (ex_fs [ex_entry ''http://b''], [])"
  using persist_empty_batch [of "ex_cfg 2" "''history.json''"
      "ex_fs [ex_entry ''http://a'', ex_entry ''http://b'']"
      "[ex_entry ''http://a'', ex_entry ''http://b'']" ex_view 0]
    persist_empty_batch [of "ex_cfg 1" "''history.json''"
      "ex_fs [ex_entry ''http://a'', ex_entry ''http://b'']"
      "[ex_entry ''http://a'', ex_entry ''http://b'']" ex_view 0]
  by (simp add: ex_cfg_def ex_fs_def max_entries_def)

subsection \<open>Failures of the history file\<close>

text \<open>
  Claim C4, as stated, fails: contents that do not parse make persist_requests raise, an
  unreadable file makes it report and return without persisting the batch, and a failing
  write raises.
\<close>

theorem persist_failure_counterexample:
  "persist_requests (ex_cfg 100) ex_view 0 [ex_get ''http://a'' 0]
       \<lparr>hfile = Holding Malformed, writable = True\<rparr> = Inl ValueError
   \<and> persist_requests (ex_cfg 100) ex_view 0 [ex_get ''http://a'' 0]
       \<lparr>hfile = Unreadable ''Permission denied'', writable = True\<rparr>
     = Inr (\<lparr>hfile = Unreadable ''Permission denied'', writable = True\<rparr>,
            [''HistoryFile Error:'' @ [CHR 0x0A] @ ''Permission denied''])
   \<and> persist_requests (ex_cfg 100) ex_view 0 [ex_get ''http://a'' 0]
       \<lparr>hfile = Holding (Object []), writable = False\<rparr> = Inl OSError"
  by (simp add: persist_defs ex_defs)

text \<open>
  Claim C4, amended. With history enabled: when the history file is absent (and can be
  created), persist_requests starts from the empty dictionary and persists the batch; when
  the file exists but opening or reading it fails, persist_requests shows the message
  \<^verbatim>\<open>HistoryFile Error:\<close> with the failure, raises nothing, and returns without persisting
  the batch, the file system left as it was.
\<close>

theorem persist_read_failure:
  "history_file cfg = Some name \<and> name \<noteq> [] \<longrightarrow>
     (hfile fs = Absent \<and> writable fs \<longrightarrow>
        persist_requests cfg view ts batch fs
          = Inr (fs\<lparr>hfile := Holding (Object (remove_oldest cfg (insert_requests view ts batch [])))\<rparr>, []))
     \<and> (\<forall>msg. hfile fs = Unreadable msg \<longrightarrow>
        persist_requests cfg view ts batch fs
          = Inr (fs, [''HistoryFile Error:'' @ [CHR 0x0A] @ msg]))"
  by (simp add: persist_requests_def read_history_def json_loads_def json_dumps_def
      write_file_def Let_def)

theorem persist_read_failure_witness:
  "persist_requests (ex_cfg 100) ex_view 0 [ex_get ''http://a'' 0] \<lparr>hfile = Absent, writable = True\<rparr>
     = Inr (\<lparr>hfile = Holding (Object [ex_entry ''http://a'']), writable = True\<rparr>, [])
   \<and> persist_requests (ex_cfg 100) ex_view 0 [ex_get ''http://a'' 0]
       \<lparr>hfile = Unreadable ''Permission denied'', writable = True\<rparr>
     = Inr (\<lparr>hfile = Unreadable ''Permission denied'', writable = True\<rparr>,
            [''HistoryFile Error:'' @ [CHR 0x0A] @ ''Permission denied''])"
  using persist_read_failure [of "ex_cfg 100" "''history.json''"
      "\<lparr>hfile = Absent, writable = True\<rparr>" ex_view 0 "[ex_get ''http://a'' 0]"]
    persist_read_failure [of "ex_cfg 100" "''history.json''"
      "\<lparr>hfile = Unreadable ''Permission denied'', writable = True\<rparr>" ex_view 0 "[ex_get ''http://a'' 0]"]
  by (simp add: persist_defs ex_defs)

subsection \<open>The pool registry\<close>

lemma evict_pools_length: "length (pools (evict_pools cap w)) \<le> cap"
proof (induction cap w rule: evict_pools.induct)
  case (1 cap w)
  show ?case
  proof (cases "length (pools w) > cap")
    case False
    then show ?thesis by (subst evict_pools.simps) simp
  next
    case True
    then obtain a rest where ps: "pools w = a # rest" by (cases "pools w") auto
    with True "1.IH" [OF True ps] show ?thesis
      by (subst evict_pools.simps) simp
  qed
qed

lemma evict_pools_one:
  "length (pools w) = Suc cap \<Longrightarrow>
   evict_pools cap w = w\<lparr>pools := tl (pools w), heap := set_done (hd (pools w)) (heap w)\<rparr>"
proof -
  assume len: "length (pools w) = Suc cap"
  then obtain a rest where ps: "pools w = a # rest" by (cases "pools w") auto
  with len have rest: "length rest = cap" by simp
  have "evict_pools cap w = evict_pools cap (w\<lparr>pools := rest, heap := set_done a (heap w)\<rparr>)"
    using len ps by (subst evict_pools.simps) simp
  also have "\<dots> = w\<lparr>pools := rest, heap := set_done a (heap w)\<rparr>"
    using rest by (subst evict_pools.simps) simp
  finally show ?thesis using ps by simp
qed

lemma evict_pools_fits:
  "length (pools w) \<le> cap \<Longrightarrow> evict_pools cap w = w"
  by (subst evict_pools.simps) simp

lemma set_done_dom: "dom (set_done a h) = dom h"
  by (auto simp: set_done_def split: option.splits if_splits)

lemma evict_pools_wf: "registry_wf w \<Longrightarrow> registry_wf (evict_pools cap w)"
proof (induction cap w rule: evict_pools.induct)
  case (1 cap w)
  show ?case
  proof (cases "length (pools w) > cap")
    case False
    with "1.prems" show ?thesis by (subst evict_pools.simps) simp
  next
    case True
    then obtain a rest where ps: "pools w = a # rest" by (cases "pools w") auto
    from "1.prems" ps have "registry_wf (w\<lparr>pools := rest, heap := set_done a (heap w)\<rparr>)"
      by (simp add: registry_wf_def set_done_dom)
    from "1.IH" [OF True ps this] True ps show ?thesis
      by (subst evict_pools.simps) simp
  qed
qed

lemma make_requests_wf: "registry_wf w \<Longrightarrow> registry_wf (make_requests cap p w)"
  unfolding make_requests_def
  by (rule evict_pools_wf) (auto simp: registry_wf_def less_Suc_eq)

lemma make_requests_all_wf: "registry_wf w \<Longrightarrow> registry_wf (make_requests_all cap ps w)"
  by (induction ps arbitrary: w) (simp_all add: make_requests_wf)

lemma init_registry_wf: "registry_wf init_registry"
  by (simp add: registry_wf_def init_registry_def)

lemma make_requests_default_capacity:
  "length (pools (make_requests MAX_NUM_RESPONSE_POOLS p w)) \<le> 10"
  using evict_pools_length [of MAX_NUM_RESPONSE_POOLS]
  by (simp add: make_requests_def MAX_NUM_RESPONSE_POOLS_def)

lemmas registry_defs = make_requests_def init_registry_def registry_wf_def set_done_def
  evict_pools.simps ex_pool_def Let_def

text \<open>
  Claim C8. After \<^verbatim>\<open>make_requests\<close> the registry holds at most \<open>cap\<close> pools, from any
  registry, and so after any number of calls from the empty registry. Registering a pool
  in a registry that holds \<open>cap\<close> pools removes the pool at the front of the queue, the
  earliest registered, which is no longer in the registry and whose \<^verbatim>\<open>is_done\<close> is now
  true, its other attributes unchanged; every other pool object is unchanged, and the
  registry holds the other pools in their order, the new one last.
\<close>

theorem make_requests_capacity:
  "length (pools (make_requests cap p w)) \<le> cap
   \<and> length (pools (make_requests_all cap ps init_registry)) \<le> cap
   \<and> (registry_wf w \<and> length (pools w) = cap \<longrightarrow>
       (let q = pools w @ [next_ref w];
            h = (heap w)(next_ref w \<mapsto> p);
            w' = make_requests cap p w
        in pools w' = tl q
           \<and> hd q \<notin> set (pools w')
           \<and> (\<exists>old. h (hd q) = Some old \<and> heap w' (hd q) = Some (old\<lparr>is_done := True\<rparr>))
           \<and> (\<forall>a. a \<noteq> hd q \<longrightarrow> heap w' a = h a)))"
proof (intro conjI impI)
  show "length (pools (make_requests cap p w)) \<le> cap"
    by (simp add: make_requests_def evict_pools_length)
  show "length (pools (make_requests_all cap ps init_registry)) \<le> cap"
  proof -
    have "length (pools w0) \<le> cap \<Longrightarrow> length (pools (make_requests_all cap ps w0)) \<le> cap" for w0
      by (induction ps arbitrary: w0) (simp_all add: make_requests_def evict_pools_length)
    then show ?thesis by (simp add: init_registry_def)
  qed
next
  assume a: "registry_wf w \<and> length (pools w) = cap"
  let ?q = "pools w @ [next_ref w]"
  let ?h = "(heap w)(next_ref w \<mapsto> p)"
  let ?w1 = "w\<lparr>pools := ?q, heap := ?h, next_ref := Suc (next_ref w)\<rparr>"
  from a have len: "length (pools ?w1) = Suc cap" by simp
  have w': "make_requests cap p w = ?w1\<lparr>pools := tl ?q, heap := set_done (hd ?q) ?h\<rparr>"
    unfolding make_requests_def using evict_pools_one [OF len] by simp
  from a have fresh: "next_ref w \<notin> set (pools w)"
    by (auto simp: registry_wf_def)
  with a have dq: "distinct ?q" by (simp add: registry_wf_def)
  have "?q \<noteq> []" by simp
  with dq have notin: "hd ?q \<notin> set (tl ?q)"
    by (cases ?q) auto
  from a have "set ?q \<subseteq> dom ?h" by (auto simp: registry_wf_def)
  moreover have "hd ?q \<in> set ?q" by (cases "pools w") auto
  ultimately obtain old where old: "?h (hd ?q) = Some old" by blast
  then have dn: "set_done (hd ?q) ?h (hd ?q) = Some (old\<lparr>is_done := True\<rparr>)"
    by (simp add: set_done_def)
  have other: "\<forall>a. a \<noteq> hd ?q \<longrightarrow> set_done (hd ?q) ?h a = ?h a"
    by (simp add: set_done_def split: option.splits)
  show "let q = ?q; h = ?h; w' = make_requests cap p w
        in pools w' = tl q
           \<and> hd q \<notin> set (pools w')
           \<and> (\<exists>old. h (hd q) = Some old \<and> heap w' (hd q) = Some (old\<lparr>is_done := True\<rparr>))
           \<and> (\<forall>a. a \<noteq> hd q \<longrightarrow> heap w' a = h a)"
    unfolding Let_def w' using notin old dn other by simp
qed

theorem make_requests_capacity_witness:
  "registry_wf (make_requests_all 2 [ex_pool [''a''], ex_pool [''b'']] init_registry)
   \<and> pools (make_requests_all 2 [ex_pool [''a''], ex_pool [''b'']] init_registry) = [0, 1]
   \<and> pools (make_requests 2 (ex_pool [''c''])
        (make_requests_all 2 [ex_pool [''a''], ex_pool [''b'']] init_registry)) = [1, 2]
   \<and> heap (make_requests 2 (ex_pool [''c''])
        (make_requests_all 2 [ex_pool [''a''], ex_pool [''b'']] init_registry)) 0
      = Some ((ex_pool [''a''])\<lparr>is_done := True\<rparr>)
   \<and> heap (make_requests 2 (ex_pool [''c''])
        (make_requests_all 2 [ex_pool [''a''], ex_pool [''b'']] init_registry)) 1
      = Some (ex_pool [''b''])
   \<and> heap (make_requests 2 (ex_pool [''c''])
        (make_requests_all 2 [ex_pool [''a''], ex_pool [''b'']] init_registry)) 2
      = Some (ex_pool [''c''])"
  using make_requests_capacity [of 2 "ex_pool [''c'']"
      "make_requests_all 2 [ex_pool [''a''], ex_pool [''b'']] init_registry" "[]"]
  by (simp add: registry_defs)

subsection \<open>Cancelling all pools\<close>

lemma cancel_run_always_raises: "cancel_run w = Inl TypeError"
  by (simp add: cancel_run_def)

text \<open>
  Claim C3 fails on the code. With one pool registered, its \<^verbatim>\<open>is_done\<close> false, the command
  raises TypeError, and no pool is marked: the \<^verbatim>\<open>for\<close> statement iterates over a
  \<^verbatim>\<open>Queue\<close>.
\<close>

theorem cancel_run_type_error:
  "cancel_run (make_requests MAX_NUM_RESPONSE_POOLS (ex_pool [''requests.get(http://a)'']) init_registry)
     = Inl TypeError
   \<and> heap (make_requests MAX_NUM_RESPONSE_POOLS (ex_pool [''requests.get(http://a)'']) init_registry) 0
     = Some (ex_pool [''requests.get(http://a)''])
   \<and> \<not> is_done (ex_pool [''requests.get(http://a)''])"
  by (simp add: cancel_run_def registry_defs MAX_NUM_RESPONSE_POOLS_def)

subsection \<open>The polling loop\<close>

lemma batches_append: "batches (es @ fs) = batches es @ batches fs"
  by (induction es rule: batches.induct) simp_all

lemma handled_append: "handled (es @ fs) = handled es @ handled fs"
  by (induction es rule: handled.induct) simp_all

lemma batches_mem: "rs \<in> set (batches es) \<longleftrightarrow> HandleResponses rs \<in> set es"
  by (induction es rule: batches.induct) auto

lemma poll_inv: "gather_inv s \<Longrightarrow> gather_inv (poll s)"
  by (auto simp: gather_inv_def poll_def batches_append handled_append Let_def
      split: gather_state.splits list.splits)

lemma env_inv:
  "gather (s') = gather s \<Longrightarrow> trace s' = trace s \<Longrightarrow> gather_inv s \<Longrightarrow> gather_inv s'"
  by (auto simp: gather_inv_def split: gather_state.splits)

lemma step_inv: "gather_inv s \<Longrightarrow> gather_inv (step a s)"
proof (cases a)
  case Poll
  assume "gather_inv s"
  with Poll show ?thesis by (simp add: poll_inv)
qed (auto elim: env_inv [rotated 2])

lemma run_inv: "gather_inv s \<Longrightarrow> gather_inv (run acts s)"
  by (induction acts arbitrary: s) (simp_all add: step_inv)

lemma init_inv: "gather_inv (init_sys p)"
  by (simp add: gather_inv_def init_sys_def)

lemma inv_batches:
  "gather_inv s \<Longrightarrow> rs \<in> set (batches (trace s)) \<Longrightarrow> rs = sort_key ordering (handled (trace s))"
  by (auto simp: gather_inv_def split: gather_state.splits)

lemma inv_batches_length: "gather_inv s \<Longrightarrow> length (batches (trace s)) \<le> 1"
  by (auto simp: gather_inv_def split: gather_state.splits)

lemma step_finished: "gather s = Finished \<Longrightarrow> gather (step a s) = Finished \<and> trace (step a s) = trace s"
  by (cases a) (simp_all add: poll_def)

lemma run_finished: "gather s = Finished \<Longrightarrow> gather (run acts s) = Finished \<and> trace (run acts s) = trace s"
proof (induction acts arbitrary: s)
  case Nil
  then show ?case by simp
next
  case (Cons a acts)
  from Cons.prems have st: "gather (step a s) = Finished" "trace (step a s) = trace s"
    by (simp_all add: step_finished)
  from Cons.IH [OF st(1)] st(2) show ?case by simp
qed

lemma step_done_seen: "done_seen s \<Longrightarrow> done_seen (step a s)"
  by (cases a) (auto simp: done_seen_def poll_def Let_def split: gather_state.splits list.splits)

lemma run_done_seen: "done_seen s \<Longrightarrow> done_seen (run acts s)"
  by (induction acts arbitrary: s) (simp_all add: step_done_seen)

lemmas gather_defs = poll_def init_sys_def ex_pool_def ex_get_def ex_res_def Let_def

text \<open>
  Claim C1. In every run of the polling loop of a pool, whatever the order in which the
  workers append their responses and the loop drains them, every list handed to
  \<^verbatim>\<open>handle_responses\<close> is sorted by \<^verbatim>\<open>ordering\<close> in ascending order; it is the stable
  sort of the responses handed to \<^verbatim>\<open>handle_response\<close>, in the order they were handed over.
\<close>

theorem batch_sorted_by_ordering:
  "\<forall>rs. HandleResponses rs \<in> set (trace (run acts (init_sys p))) \<longrightarrow>
     sorted (map ordering rs)
     \<and> rs = sort_key ordering (handled (trace (run acts (init_sys p))))"
proof (intro allI impI)
  fix rs
  assume "HandleResponses rs \<in> set (trace (run acts (init_sys p)))"
  then have "rs \<in> set (batches (trace (run acts (init_sys p))))"
    by (simp add: batches_mem)
  with run_inv [OF init_inv, of acts p]
  have eq: "rs = sort_key ordering (handled (trace (run acts (init_sys p))))"
    by (rule inv_batches)
  have "sorted (map ordering (sort_key ordering (handled (trace (run acts (init_sys p))))))"
    by (rule sorted_sort_key)
  with eq show "sorted (map ordering rs)
     \<and> rs = sort_key ordering (handled (trace (run acts (init_sys p))))"
    by simp
qed

theorem batch_sorted_by_ordering_witness:
  "HandleResponses [ex_get ''http://a'' 0, ex_get ''http://b'' 1, ex_get ''http://c'' 2]
     \<in> set (trace (run [Append (ex_get ''http://c'' 2), Append (ex_get ''http://b'' 1),
                         Append (ex_get ''http://a'' 0), SetDone, Poll, Poll, Poll, Poll, Poll]
                    (init_sys (ex_pool [''requests.get(http://a)'', ''requests.get(http://b)'',
                                        ''requests.get(http://c)'']))))
   \<and> sorted (map ordering [ex_get ''http://a'' 0, ex_get ''http://b'' 1, ex_get ''http://c'' 2])
   \<and> handled (trace (run [Append (ex_get ''http://c'' 2), Append (ex_get ''http://b'' 1),
                         Append (ex_get ''http://a'' 0), SetDone, Poll, Poll, Poll, Poll, Poll]
                    (init_sys (ex_pool [''requests.get(http://a)'', ''requests.get(http://b)'',
                                        ''requests.get(http://c)'']))))
       = [ex_get ''http://c'' 2, ex_get ''http://b'' 1, ex_get ''http://a'' 0]"
  using batch_sorted_by_ordering [of
      "[Append (ex_get ''http://c'' 2), Append (ex_get ''http://b'' 1),
        Append (ex_get ''http://a'' 0), SetDone, Poll, Poll, Poll, Poll, Poll]"
      "ex_pool [''requests.get(http://a)'', ''requests.get(http://b)'', ''requests.get(http://c)'']"]
  by (simp add: gather_defs)

text \<open>
  What does hold once \<^verbatim>\<open>is_done\<close> was cached as true: the loop is never scheduled
  again, it returns as soon as it finds the container empty, after its return no call is
  made whatever arrives in the container, and in a whole run the batch is handed to
  \<^verbatim>\<open>handle_responses\<close> at most once.
\<close>

lemma finished_pool_is_silent:
  "(gather s = Finished \<longrightarrow>
      gather (run acts s) = Finished \<and> trace (run acts s) = trace s)
   \<and> (gather s = Draining True n rs \<longrightarrow>
      (\<forall>n' rs'. gather (run acts s) \<noteq> Scheduled n' rs'))
   \<and> (gather s = Draining True n rs \<and> responses (pool s) = [] \<longrightarrow>
      gather (step Poll s) = Finished)
   \<and> length (batches (trace (run acts (init_sys p)))) \<le> 1"
proof -
  have "gather s = Finished \<longrightarrow>
      gather (run acts s) = Finished \<and> trace (run acts s) = trace s"
    by (simp add: run_finished)
  moreover have "gather s = Draining True n rs \<longrightarrow>
      (\<forall>n' rs'. gather (run acts s) \<noteq> Scheduled n' rs')"
  proof
    assume "gather s = Draining True n rs"
    then have "done_seen s" by (simp add: done_seen_def)
    then have "done_seen (run acts s)" by (rule run_done_seen)
    then show "\<forall>n' rs'. gather (run acts s) \<noteq> Scheduled n' rs'"
      by (auto simp: done_seen_def)
  qed
  moreover have "gather s = Draining True n rs \<and> responses (pool s) = [] \<longrightarrow>
      gather (step Poll s) = Finished"
    by (simp add: poll_def Let_def)
  moreover have "length (batches (trace (run acts (init_sys p)))) \<le> 1"
    using run_inv [OF init_inv] by (rule inv_batches_length)
  ultimately show ?thesis by blast
qed

text \<open>
  Claim C2 fails on the code. A pool of two requests has one response in its container when
  \<^verbatim>\<open>is_done\<close> is set (by \<^verbatim>\<open>old_pool.is_done = True\<close> in \<^verbatim>\<open>make_requests\<close>, or by a
  cancellation), one request still pending. The next call of gather_responses caches
  \<^verbatim>\<open>is_done\<close> as true and then still hands that response to \<^verbatim>\<open>handle_response\<close> and a
  batch of one to \<^verbatim>\<open>handle_responses\<close>, \<^verbatim>\<open>default_handle_errors\<close> and
  \<^verbatim>\<open>persist_requests\<close>; a response that arrives while the call drains the container is
  handed over as well.
\<close>

theorem gather_responses_after_done:
  "gather (run [Append (ex_get ''http://b'' 1), SetDone, Poll]
       (init_sys (ex_pool [''requests.get(http://a)'', ''requests.get(http://b)''])))
     = Draining True 0 []
   \<and> trace (run [Append (ex_get ''http://b'' 1), SetDone, Poll]
       (init_sys (ex_pool [''requests.get(http://a)'', ''requests.get(http://b)''])))
     = [ShowActivity [''requests.get(http://a)'', ''requests.get(http://b)''] 0]
   \<and> trace (run [Append (ex_get ''http://b'' 1), SetDone, Poll, Poll, Poll]
       (init_sys (ex_pool [''requests.get(http://a)'', ''requests.get(http://b)''])))
     = [ShowActivity [''requests.get(http://a)'', ''requests.get(http://b)''] 0,
        HandleResponse (ex_get ''http://b'' 1) 2,
        HandleResponses [ex_get ''http://b'' 1],
        DefaultHandleErrors [ex_get ''http://b'' 1],
        PersistRequests [ex_get ''http://b'' 1],
        ClearActivity]
   \<and> trace (run [Append (ex_get ''http://b'' 1), SetDone, Poll,
                 Poll, Append (ex_get ''http://a'' 0), Poll, Poll]
       (init_sys (ex_pool [''requests.get(http://a)'', ''requests.get(http://b)''])))
     = [ShowActivity [''requests.get(http://a)'', ''requests.get(http://b)''] 0,
        HandleResponse (ex_get ''http://b'' 1) 2,
        HandleResponse (ex_get ''http://a'' 0) 2,
        HandleResponses [ex_get ''http://a'' 0, ex_get ''http://b'' 1],
        DefaultHandleErrors [ex_get ''http://a'' 0, ex_get ''http://b'' 1],
        PersistRequests [ex_get ''http://a'' 0, ex_get ''http://b'' 1],
        ClearActivity]"
  by (simp add: gather_defs)

end
